theory Spec2Isabelle
  imports Main "HOL-Library.AList" "HOL-Library.Sublist" "HOL-Library.Multiset"
begin

section \<open>Data model (app/models.py, app/db.py)\<close>

text \<open>
  A \<open>datetime\<close> is a reading of the clock; only equality of readings matters here, so a
  reading is an integer (microseconds since some epoch). \<open>datetime.now()\<close> is an input of
  the operation that calls it.
\<close>

type_synonym datetime = int

text \<open>The pydantic model \<open>User\<close> of app/models.py. The field \<open>id\<close> is written \<open>id'\<close>.\<close>

record User =
  id' :: int
  username :: string
  email :: string
  created_at :: datetime

text \<open>
  The ORM row \<open>UserModel\<close> of app/db.py (table \<open>users\<close>): \<open>id\<close> is the primary key
  assigned by the storage engine, \<open>username\<close> carries \<open>unique=True\<close>, \<open>created_at\<close>
  defaults to the clock reading at insertion.
\<close>

record UserModel =
  db_id :: int
  db_username :: string
  db_email :: string
  db_created_at :: datetime

text \<open>
  Every \<open>raise\<close> the modelled code can reach: the factory's \<open>ValueError\<close> with its
  message, and what the storage engine and its driver raise (a violated constraint; a
  database that cannot be opened, a statement against a table that does not exist, no key
  left to assign; a primary-key lookup that finds several rows; an integer too large to
  bind).
\<close>

datatype error =
    ValueError string
  | IntegrityError
  | OperationalError
  | MultipleResultsFound
  | OverflowError

section \<open>InMemoryUserRepository (app/repository.py, lines 29-59)\<close>

text \<open>
  \<open>_users\<close> is a Python dict: an association list in insertion order, where assigning to
  a key that is present replaces the value in place and assigning to a new key appends
  (\<open>AList.update\<close>). \<open>_next_id\<close> is an unbounded Python int. The lock is not part of the
  sequential model.
\<close>

record InMemoryUserRepository =
  users :: "(int \<times> User) list"
  next_id :: int

definition InMemory_init :: InMemoryUserRepository where
  "InMemory_init = \<lparr>users = [], next_id = 1\<rparr>"

definition mem_create_user ::
  "InMemoryUserRepository \<Rightarrow> string \<Rightarrow> string \<Rightarrow> datetime \<Rightarrow> (error + User) \<times> InMemoryUserRepository" where
  "mem_create_user s uname mail now =
     (let user = \<lparr>id' = next_id s, username = uname, email = mail, created_at = now\<rparr>;
          s1 = s\<lparr>users := AList.update (id' user) user (users s)\<rparr>;
          s2 = s1\<lparr>next_id := next_id s1 + 1\<rparr>
      in (Inr user, s2))"

definition mem_get_user ::
  "InMemoryUserRepository \<Rightarrow> int \<Rightarrow> (error + User option) \<times> InMemoryUserRepository" where
  "mem_get_user s user_id = (let user = map_of (users s) user_id in (Inr user, s))"

definition mem_list_users ::
  "InMemoryUserRepository \<Rightarrow> (error + User list) \<times> InMemoryUserRepository" where
  "mem_list_users s = (let us = map snd (users s) in (Inr us, s))"

section \<open>SQLiteUserRepository (app/repository.py, lines 62-118) over the storage engine\<close>

text \<open>
  The storage engine is SQLite behind SQLAlchemy, which is not code of this repository.
  Its state is what the repository can observe of the database file named by \<open>db_path\<close>:
  whether the file can be opened (\<open>reachable\<close>; no operation of the repository changes
  that), whether the table \<open>users\<close> exists, and which rows it holds (in storage order).
  \<open>create_all_calls\<close> counts the executions of \<open>Base.metadata.create_all\<close> (line 77)
  and is read by no operation.
\<close>

record engine =
  reachable :: bool
  users_table :: "UserModel list option"
  create_all_calls :: nat

text \<open>
  \<open>get_async_engine(db_path)\<close> (app/db.py, line 27) builds a new engine for the URL
  \<open>sqlite+aiosqlite:///db_path\<close> each time it is called. Engines for the path of a file
  open the same file. For \<open>:memory:\<close>, and for the empty path, which names the same, every
  engine has a database of its own that starts without tables.
\<close>

definition private_database :: "string \<Rightarrow> bool" where
  "private_database path = (path = '':memory:'' \<or> path = [])"

text \<open>The keys SQLite stores and the integers its driver accepts: signed 64-bit.\<close>

definition int64 :: "int \<Rightarrow> bool" where
  "int64 k = (- 9223372036854775808 \<le> k \<and> k \<le> 9223372036854775807)"

text \<open>
  Lines 75 to 77 of \<open>_init_db\<close>: a new engine for \<open>db_path\<close>, \<open>engine.begin()\<close>, and
  \<open>create_all\<close> on that connection. For a private database the table is created in the
  new engine's own database, which nothing else reads. For a file that cannot be opened
  \<open>engine.begin()\<close> raises. Otherwise \<open>create_all\<close> creates the table if it is absent and
  leaves an existing table as it is.
\<close>

definition create_all :: "string \<Rightarrow> engine \<Rightarrow> error + engine" where
  "create_all path e =
     (if private_database path then Inr (e\<lparr>create_all_calls := Suc (create_all_calls e)\<rparr>)
      else if \<not> reachable e then Inl OperationalError
      else Inr (e\<lparr>users_table := Some (case users_table e of None \<Rightarrow> [] | Some rows \<Rightarrow> rows),
                  create_all_calls := Suc (create_all_calls e)\<rparr>))"

text \<open>
  What a statement on the table \<open>users\<close> finds when it runs in a session of the session
  maker built at construction (line 67). That session maker has an engine of its own: for
  a private database it is a database in which no table was created; for a file it is the
  file, and the statement fails when the file cannot be opened or has no table \<open>users\<close>.
\<close>

definition session_table :: "string \<Rightarrow> engine \<Rightarrow> error + UserModel list" where
  "session_table path e =
     (if private_database path then Inl OperationalError
      else if \<not> reachable e then Inl OperationalError
      else (case users_table e of None \<Rightarrow> Inl OperationalError | Some rows \<Rightarrow> Inr rows))"

text \<open>
  \<open>session.add; commit; refresh\<close> of a new \<open>UserModel(username, email)\<close>. The engine
  chooses the primary key: its choice is the parameter \<open>assign_key\<close>, a function of the
  rows present. The schema of app/db.py makes the insertion fail when the username is
  already stored (\<open>unique=True\<close>) or the key is taken (\<open>primary_key=True\<close>); the engine
  also fails when it has no 64-bit key to give. A failed commit is rolled back and leaves
  the table as it was.
\<close>

definition session_add_commit_refresh ::
  "(UserModel list \<Rightarrow> int) \<Rightarrow> string \<Rightarrow> engine \<Rightarrow> string \<Rightarrow> string \<Rightarrow> datetime
     \<Rightarrow> error + (UserModel \<times> engine)" where
  "session_add_commit_refresh assign_key path e uname mail now =
     (case session_table path e of
        Inl err \<Rightarrow> Inl err
      | Inr rows \<Rightarrow>
          (let db_user = \<lparr>db_id = assign_key rows, db_username = uname, db_email = mail,
                          db_created_at = now\<rparr>
           in if uname \<in> set (map db_username rows) then Inl IntegrityError
              else if \<not> int64 (db_id db_user) then Inl OperationalError
              else if db_id db_user \<in> set (map db_id rows) then Inl IntegrityError
              else Inr (db_user, e\<lparr>users_table := Some (rows @ [db_user])\<rparr>)))"

text \<open>
  \<open>select(UserModel).where(UserModel.id == user_id)\<close>. The id is passed on as the
  caller gave it; the driver raises \<open>OverflowError\<close> when it binds an integer outside the
  signed 64-bit range.
\<close>

definition select_where_id :: "string \<Rightarrow> engine \<Rightarrow> int \<Rightarrow> error + UserModel list" where
  "select_where_id path e user_id =
     (case session_table path e of
        Inl err \<Rightarrow> Inl err
      | Inr rows \<Rightarrow>
          if \<not> int64 user_id then Inl OverflowError
          else Inr (filter (\<lambda>row. db_id row = user_id) rows))"

text \<open>\<open>result.scalar_one_or_none()\<close>.\<close>

fun scalar_one_or_none :: "UserModel list \<Rightarrow> error + UserModel option" where
  "scalar_one_or_none [] = Inr None"
| "scalar_one_or_none [row] = Inr (Some row)"
| "scalar_one_or_none (row # row2 # rest) = Inl MultipleResultsFound"

text \<open>\<open>select(UserModel).order_by(UserModel.id)\<close> followed by \<open>result.scalars().all()\<close>.\<close>

definition select_order_by_id :: "string \<Rightarrow> engine \<Rightarrow> error + UserModel list" where
  "select_order_by_id path e =
     (case session_table path e of
        Inl err \<Rightarrow> Inl err
      | Inr rows \<Rightarrow> Inr (sort_key db_id rows))"

text \<open>\<open>User.model_validate(db_user)\<close> with \<open>from_attributes=True\<close>.\<close>

definition model_validate :: "UserModel \<Rightarrow> User" where
  "model_validate db_user =
     \<lparr>id' = db_id db_user, username = db_username db_user, email = db_email db_user,
      created_at = db_created_at db_user\<rparr>"

text \<open>
  The instance holds the path and the flag \<open>_initialized\<close>; its session maker is
  determined by the path. The state of the database file is passed along with the
  instance.
\<close>

record SQLiteUserRepository =
  db_path :: string
  initialized :: bool

definition SQLite_init :: "string \<Rightarrow> SQLiteUserRepository" where
  "SQLite_init path = \<lparr>db_path = path, initialized = False\<rparr>"

text \<open>
  \<open>_init_db\<close>: nothing when the flag is set; otherwise lines 75 to 77, and the flag is set
  (line 78) only when they raised nothing. An exception leaves the instance as it was.
\<close>

definition init_db ::
  "SQLiteUserRepository \<times> engine \<Rightarrow> (error + unit) \<times> (SQLiteUserRepository \<times> engine)" where
  "init_db st =
     (case st of (r, e) \<Rightarrow>
        if initialized r then (Inr (), (r, e))
        else (case create_all (db_path r) e of
                Inl err \<Rightarrow> (Inl err, (r, e))
              | Inr e1 \<Rightarrow> (Inr (), (r\<lparr>initialized := True\<rparr>, e1))))"

definition sqlite_create_user ::
  "(UserModel list \<Rightarrow> int) \<Rightarrow> SQLiteUserRepository \<times> engine \<Rightarrow> string \<Rightarrow> string \<Rightarrow> datetime
     \<Rightarrow> (error + User) \<times> (SQLiteUserRepository \<times> engine)" where
  "sqlite_create_user assign_key st uname mail now =
     (case init_db st of
        (Inl err, st1) \<Rightarrow> (Inl err, st1)
      | (Inr ok, (r, e)) \<Rightarrow>
          (case session_add_commit_refresh assign_key (db_path r) e uname mail now of
             Inl err \<Rightarrow> (Inl err, (r, e))
           | Inr (db_user, e1) \<Rightarrow> (Inr (model_validate db_user), (r, e1))))"

definition sqlite_get_user ::
  "SQLiteUserRepository \<times> engine \<Rightarrow> int
     \<Rightarrow> (error + User option) \<times> (SQLiteUserRepository \<times> engine)" where
  "sqlite_get_user st user_id =
     (case init_db st of
        (Inl err, st1) \<Rightarrow> (Inl err, st1)
      | (Inr ok, (r, e)) \<Rightarrow>
          (case select_where_id (db_path r) e user_id of
             Inl err \<Rightarrow> (Inl err, (r, e))
           | Inr found \<Rightarrow>
               (case scalar_one_or_none found of
                  Inl err \<Rightarrow> (Inl err, (r, e))
                | Inr None \<Rightarrow> (Inr None, (r, e))
                | Inr (Some db_user) \<Rightarrow> (Inr (Some (model_validate db_user)), (r, e)))))"

definition sqlite_list_users ::
  "SQLiteUserRepository \<times> engine \<Rightarrow> (error + User list) \<times> (SQLiteUserRepository \<times> engine)" where
  "sqlite_list_users st =
     (case init_db st of
        (Inl err, st1) \<Rightarrow> (Inl err, st1)
      | (Inr ok, (r, e)) \<Rightarrow>
          (case select_order_by_id (db_path r) e of
             Inl err \<Rightarrow> (Inl err, (r, e))
           | Inr db_users \<Rightarrow> (Inr (map model_validate db_users), (r, e))))"

section \<open>Sequences of calls on one instance\<close>

datatype call = CreateUser string string datetime | GetUser int | ListUsers

datatype reply = Created User | Got "User option" | Listed "User list"

fun mem_call ::
  "InMemoryUserRepository \<Rightarrow> call \<Rightarrow> (error + reply) \<times> InMemoryUserRepository" where
  "mem_call s (CreateUser uname mail now) =
     (case mem_create_user s uname mail now of (x, s1) \<Rightarrow> (map_sum (\<lambda>e. e) Created x, s1))"
| "mem_call s (GetUser user_id) =
     (case mem_get_user s user_id of (x, s1) \<Rightarrow> (map_sum (\<lambda>e. e) Got x, s1))"
| "mem_call s ListUsers =
     (case mem_list_users s of (x, s1) \<Rightarrow> (map_sum (\<lambda>e. e) Listed x, s1))"

fun sqlite_call ::
  "(UserModel list \<Rightarrow> int) \<Rightarrow> SQLiteUserRepository \<times> engine \<Rightarrow> call
     \<Rightarrow> (error + reply) \<times> (SQLiteUserRepository \<times> engine)" where
  "sqlite_call assign_key st (CreateUser uname mail now) =
     (case sqlite_create_user assign_key st uname mail now of
        (x, st1) \<Rightarrow> (map_sum (\<lambda>e. e) Created x, st1))"
| "sqlite_call assign_key st (GetUser user_id) =
     (case sqlite_get_user st user_id of (x, st1) \<Rightarrow> (map_sum (\<lambda>e. e) Got x, st1))"
| "sqlite_call assign_key st ListUsers =
     (case sqlite_list_users st of (x, st1) \<Rightarrow> (map_sum (\<lambda>e. e) Listed x, st1))"

text \<open>Running the calls in order, each on the state the previous one left.\<close>

fun run :: "('s \<Rightarrow> call \<Rightarrow> 'r \<times> 's) \<Rightarrow> 's \<Rightarrow> call list \<Rightarrow> 'r list \<times> 's" where
  "run step s [] = ([], s)"
| "run step s (c # cs) =
     (case step s c of (x, s1) \<Rightarrow>
        (case run step s1 cs of (xs, s2) \<Rightarrow> (x # xs, s2)))"

text \<open>The users that the successful \<open>create_user\<close> calls of a run returned, in call order.\<close>

fun created :: "(error + reply) list \<Rightarrow> User list" where
  "created [] = []"
| "created (Inr (Created u) # xs) = u # created xs"
| "created (x # xs) = created xs"

text \<open>The rows of the table, none when the table does not exist.\<close>

definition table_rows :: "engine \<Rightarrow> UserModel list" where
  "table_rows e = (case users_table e of None \<Rightarrow> [] | Some rows \<Rightarrow> rows)"

text \<open>The primary-key constraint the engine maintains: no two rows share an id.\<close>

definition pk_ok :: "engine \<Rightarrow> bool" where
  "pk_ok e = distinct (map db_id (table_rows e))"

section \<open>Factory (app/factory.py)\<close>

text \<open>
  A Python \<open>str\<close> is modelled by its UTF-8 bytes, so a character is ASCII exactly when
  its one byte is below 128. \<open>str.lower()\<close> on a string of ASCII characters sends the
  letters \<open>A\<close> to \<open>Z\<close> to \<open>a\<close> to \<open>z\<close> and keeps every other character. On any other
  string its result comes from the Unicode tables of the Python runtime, which are not
  code of this repository: it is the parameter \<open>unicode_lower\<close>.
\<close>

definition is_ascii :: "char \<Rightarrow> bool" where
  "is_ascii c = ((of_char c :: nat) < 128)"

definition lower_char :: "char \<Rightarrow> char" where
  "lower_char c =
     (let n = (of_char c :: nat) in if 65 \<le> n \<and> n \<le> 90 then char_of (n + 32) else c)"

definition lower :: "(string \<Rightarrow> string) \<Rightarrow> string \<Rightarrow> string" where
  "lower unicode_lower s = (if list_all is_ascii s then map lower_char s else unicode_lower s)"

datatype UserRepository =
    InMemory InMemoryUserRepository
  | SQLite SQLiteUserRepository

text \<open>\<open>os.getenv(name, default)\<close> on the process environment.\<close>

definition getenv :: "(string \<rightharpoonup> string) \<Rightarrow> string \<Rightarrow> string \<Rightarrow> string" where
  "getenv env name dflt = (case env name of None \<Rightarrow> dflt | Some v \<Rightarrow> v)"

text \<open>
  The factory reads the environment and calls a constructor. The constructors set the
  fields of the new instance; \<open>SQLiteUserRepository.__init__\<close> builds its session maker,
  which opens nothing before the first statement. The state of the database file is
  passed through the factory to show what it does to it.
\<close>

definition create_user_repository ::
  "(string \<Rightarrow> string) \<Rightarrow> (string \<rightharpoonup> string) \<Rightarrow> string option \<Rightarrow> engine
     \<Rightarrow> (error + UserRepository) \<times> engine" where
  "create_user_repository unicode_lower env repo_type e =
     (let repo_type1 = (case repo_type of None \<Rightarrow> getenv env ''REPO_TYPE'' ''memory''
                                         | Some t \<Rightarrow> t);
          repo_type2 = lower unicode_lower repo_type1
      in if repo_type2 = ''memory'' then (Inr (InMemory InMemory_init), e)
         else if repo_type2 = ''sqlite'' then (Inr (SQLite (SQLite_init ''users.db'')), e)
         else (Inl (ValueError (''Unknown repository type: '' @ repo_type2
                                  @ ''. Use 'memory' or 'sqlite'' @ [CHR 0x27])), e))"


section \<open>Runs from a fresh instance\<close>

text \<open>
  The replies of a run of calls on a freshly constructed in-memory instance, and the
  instance after the run.
\<close>

definition mem_replies :: "call list \<Rightarrow> (error + reply) list" where
  "mem_replies calls = fst (run mem_call InMemory_init calls)"

definition mem_after :: "call list \<Rightarrow> InMemoryUserRepository" where
  "mem_after calls = snd (run mem_call InMemory_init calls)"


text \<open>
  The same for a freshly constructed \<open>SQLiteUserRepository(path)\<close> working on a database
  in state \<open>e\<close>, with the engine choosing keys by \<open>assign_key\<close>.
\<close>

definition sqlite_replies ::
  "(UserModel list \<Rightarrow> int) \<Rightarrow> string \<Rightarrow> engine \<Rightarrow> call list \<Rightarrow> (error + reply) list" where
  "sqlite_replies assign_key path e calls =
     fst (run (sqlite_call assign_key) (SQLite_init path, e) calls)"

definition sqlite_after ::
  "(UserModel list \<Rightarrow> int) \<Rightarrow> string \<Rightarrow> engine \<Rightarrow> call list \<Rightarrow> SQLiteUserRepository \<times> engine" where
  "sqlite_after assign_key path e calls =
     snd (run (sqlite_call assign_key) (SQLite_init path, e) calls)"


text \<open>
  One choice of keys, used in the examples: one more than the largest key stored, and 1
  for an empty table.
\<close>

definition sqlite_rowid :: "UserModel list \<Rightarrow> int" where
  "sqlite_rowid rows =
     (case rows of [] \<Rightarrow> 1 | row # rest \<Rightarrow> fold max (map db_id rest) (db_id row) + 1)"


section \<open>Invariants of the reachable states\<close>

text \<open>
  After a run on a fresh in-memory instance the dict holds exactly the users created, each
  under its own id, in creation order, and the ids are 1 up to \<open>_next_id - 1\<close>.
\<close>

definition mem_inv :: "(error + reply) list \<Rightarrow> InMemoryUserRepository \<Rightarrow> bool" where
  "mem_inv rs s \<longleftrightarrow>
     users s = map (\<lambda>u. (id' u, u)) (created rs) \<and>
     map id' (created rs) = [1..next_id s - 1] \<and> 1 \<le> next_id s"


text \<open>
  The sessions of the instance reach the table: the database is a file that can be opened,
  and an instance whose flag is set has its table.
\<close>

definition serves :: "SQLiteUserRepository \<times> engine \<Rightarrow> bool" where
  "serves st \<longleftrightarrow>
     \<not> private_database (db_path (fst st)) \<and> reachable (snd st) \<and>
     (if initialized (fst st) then users_table (snd st) \<noteq> None else True)"


text \<open>
  In a run on a persistent instance the flag of an instance on a file implies that the
  file can be opened and has the table, the primary keys stay distinct, and every user a
  \<open>create_user\<close> returned has a 64-bit id and is the image of a row of a table that the
  sessions reach.
\<close>

definition sqlite_inv :: "(error + reply) list \<Rightarrow> SQLiteUserRepository \<times> engine \<Rightarrow> bool" where
  "sqlite_inv rs st \<longleftrightarrow>
     (if initialized (fst st) \<and> \<not> private_database (db_path (fst st))
      then reachable (snd st) \<and> users_table (snd st) \<noteq> None else True) \<and>
     pk_ok (snd st) \<and>
     list_all (\<lambda>u. serves st \<and> int64 (id' u) \<and> u \<in> model_validate ` set (table_rows (snd st)))
       (created rs)"


section \<open>Letter case, as the specification words it\<close>

text \<open>
  \<open>in_any_letter_case word s\<close>: the string \<open>s\<close> spells the lower-case \<open>word\<close>, each
  letter in either case. It is the reading of "in any letter case" that the factory's
  \<open>lower\<close> is compared with; \<open>lower_letters\<close> says that a word consists of the letters
  \<open>a\<close> to \<open>z\<close>.
\<close>

definition upper_char :: "char \<Rightarrow> char" where
  "upper_char c =
     (let n = (of_char c :: nat) in if 97 \<le> n \<and> n \<le> 122 then char_of (n - 32) else c)"

definition in_any_letter_case :: "string \<Rightarrow> string \<Rightarrow> bool" where
  "in_any_letter_case word s = list_all2 (\<lambda>w c. c = w \<or> c = upper_char w) word s"

definition lower_letters :: "string \<Rightarrow> bool" where
  "lower_letters word = list_all (\<lambda>w. 97 \<le> (of_char w :: nat) \<and> (of_char w :: nat) \<le> 122) word"


section \<open>Runs and invariants\<close>

lemma run_append:
  "run step s (xs @ ys) =
     (case run step s xs of (rs, s1) \<Rightarrow> (case run step s1 ys of (rs2, s2) \<Rightarrow> (rs @ rs2, s2)))"
  by (induction xs arbitrary: s) (auto split: prod.splits)

lemma run_snoc:
  "run step s (xs @ [c]) =
     (case run step s xs of (rs, s1) \<Rightarrow> (case step s1 c of (x, s2) \<Rightarrow> (rs @ [x], s2)))"
  by (simp add: run_append split: prod.splits)

lemma run_invariant:
  assumes init: "P [] s0"
    and step: "\<And>rs s c x s'. P rs s \<Longrightarrow> step s c = (x, s') \<Longrightarrow> P (rs @ [x]) s'"
  shows "P (fst (run step s0 cs)) (snd (run step s0 cs))"
proof (induction cs rule: rev_induct)
  case Nil
  show ?case using init by simp
next
  case (snoc c cs)
  obtain rs s where r: "run step s0 cs = (rs, s)" by (cases "run step s0 cs")
  obtain x s' where st: "step s c = (x, s')" by (cases "step s c")
  from snoc r have "P rs s" by simp
  from step[OF this st] show ?case by (simp add: run_snoc r st)
qed

lemma created_append: "created (xs @ ys) = created xs @ created ys"
  by (induction xs rule: created.induct) auto

lemma update_fresh: "k \<notin> fst ` set al \<Longrightarrow> AList.update k v al = al @ [(k, v)]"
  by (induction al) auto

lemma mem_inv_init: "mem_inv [] InMemory_init"
  by (simp add: mem_inv_def InMemory_init_def)

lemma mem_inv_step:
  assumes inv: "mem_inv rs s" and st: "mem_call s c = (x, s')"
  shows "mem_inv (rs @ [x]) s'"
proof (cases c)
  case (CreateUser uname mail now)
  have keys: "fst ` set (users s) = set [1..next_id s - 1]"
  proof -
    have "map fst (users s) = map id' (created rs)"
      using inv by (simp add: mem_inv_def comp_def)
    then have "map fst (users s) = [1..next_id s - 1]"
      using inv by (simp add: mem_inv_def)
    then have "set (map fst (users s)) = set [1..next_id s - 1]" by simp
    then show ?thesis by simp
  qed
  have fresh: "next_id s \<notin> fst ` set (users s)"
    unfolding keys by simp
  have up: "[1..next_id s] = [1..next_id s - 1] @ [next_id s]"
    using inv by (simp add: mem_inv_def upto_rec2)
  define u where "u = \<lparr>id' = next_id s, username = uname, email = mail, created_at = now\<rparr>"
  have x: "x = Inr (Created u)"
    using st CreateUser by (auto simp: mem_create_user_def Let_def u_def)
  have us: "users s' = users s @ [(id' u, u)]" and nx: "next_id s' = next_id s + 1"
    using st CreateUser update_fresh[OF fresh]
    by (auto simp: mem_create_user_def Let_def u_def)
  show ?thesis
    using inv up by (simp add: mem_inv_def x us nx created_append u_def)
next
  case (GetUser k)
  then show ?thesis
    using inv st by (auto simp: mem_inv_def mem_get_user_def Let_def created_append)
next
  case ListUsers
  then show ?thesis
    using inv st by (auto simp: mem_inv_def mem_list_users_def Let_def created_append)
qed

lemma mem_run_inv: "mem_inv (mem_replies calls) (mem_after calls)"
  unfolding mem_replies_def mem_after_def
  by (rule run_invariant[where P = mem_inv, OF mem_inv_init mem_inv_step])

lemma mem_created_ids: "map id' (created (mem_replies calls)) = [1..int (length (created (mem_replies calls)))]"
proof -
  let ?us = "created (mem_replies calls)"
  have eq: "map id' ?us = [1..next_id (mem_after calls) - 1]" and pos: "1 \<le> next_id (mem_after calls)"
    using mem_run_inv[of calls] by (simp_all add: mem_inv_def)
  have "length (map id' ?us) = nat (next_id (mem_after calls) - 1)"
    unfolding eq by simp
  then have "int (length ?us) = next_id (mem_after calls) - 1"
    using pos by simp
  then show ?thesis using eq by simp
qed

lemma mem_users_after:
  "users (mem_after calls) = map (\<lambda>u. (id' u, u)) (created (mem_replies calls))"
  using mem_run_inv[of calls] by (simp add: mem_inv_def)

lemma map_of_keyed:
  "distinct (map f xs) \<Longrightarrow> x \<in> set xs \<Longrightarrow> map_of (map (\<lambda>u. (f u, u)) xs) (f x) = Some x"
  by (induction xs) (auto simp: rev_image_eqI)

lemma get_user_created_mem:
  "u \<in> set (created (mem_replies calls)) \<Longrightarrow> fst (mem_get_user (mem_after calls) (id' u)) = Inr (Some u)"
proof -
  assume u: "u \<in> set (created (mem_replies calls))"
  have d: "distinct (map id' (created (mem_replies calls)))"
    by (subst mem_created_ids) simp
  have "users (mem_after calls) = map (\<lambda>u. (id' u, u)) (created (mem_replies calls))"
    using mem_run_inv[of calls] by (simp add: mem_inv_def)
  then show ?thesis
    using map_of_keyed[OF d u] by (simp add: mem_get_user_def)
qed


section \<open>The persistent variant\<close>

lemma engine_eq:
  "reachable e = b \<Longrightarrow> users_table e = t \<Longrightarrow>
     \<lparr>reachable = b, users_table = t, create_all_calls = create_all_calls e\<rparr> = e"
  by (cases e) simp

lemma init_db_serves:
  assumes "serves (r, e)"
  shows "\<exists>n. init_db (r, e) =
           (Inr (), (r\<lparr>initialized := True\<rparr>,
                     \<lparr>reachable = True, users_table = Some (table_rows e), create_all_calls = n\<rparr>))"
proof (cases "initialized r")
  case True
  from assms True obtain rows where tbl: "users_table e = Some rows" and re: "reachable e"
    by (auto simp: serves_def)
  have e: "\<lparr>reachable = True, users_table = Some rows, create_all_calls = create_all_calls e\<rparr> = e"
    using engine_eq[of e True "Some rows"] re tbl by simp
  have r: "r\<lparr>initialized := True\<rparr> = r" using True by simp
  have "init_db (r, e) =
          (Inr (), (r\<lparr>initialized := True\<rparr>,
                    \<lparr>reachable = True, users_table = Some (table_rows e),
                     create_all_calls = create_all_calls e\<rparr>))"
    unfolding r by (simp add: init_db_def True table_rows_def tbl e)
  then show ?thesis by blast
next
  case False
  from assms have p: "\<not> private_database (db_path r)" and re: "reachable e"
    by (simp_all add: serves_def)
  have "create_all (db_path r) e =
          Inr \<lparr>reachable = True, users_table = Some (table_rows e),
               create_all_calls = Suc (create_all_calls e)\<rparr>"
    using p re by (cases e; cases "users_table e") (simp_all add: create_all_def table_rows_def)
  then have "init_db (r, e) =
          (Inr (), (r\<lparr>initialized := True\<rparr>,
                    \<lparr>reachable = True, users_table = Some (table_rows e),
                     create_all_calls = Suc (create_all_calls e)\<rparr>))"
    by (simp add: init_db_def False)
  then show ?thesis by blast
qed

lemma session_table_serves:
  "\<not> private_database path \<Longrightarrow>
     session_table path \<lparr>reachable = True, users_table = Some rows, create_all_calls = n\<rparr> = Inr rows"
  by (simp add: session_table_def)

lemma filter_key_distinct:
  "distinct (map f xs) \<Longrightarrow> x \<in> set xs \<Longrightarrow> filter (\<lambda>y. f y = f x) xs = [x]"
proof (induction xs)
  case Nil
  then show ?case by simp
next
  case (Cons a xs)
  show ?case
  proof (cases "a = x")
    case True
    with Cons.prems have "\<forall>y\<in>set xs. f y \<noteq> f x" by (auto simp: image_iff)
    then have "filter (\<lambda>y. f y = f x) xs = []" by (simp add: filter_empty_conv)
    with True show ?thesis by simp
  next
    case False
    with Cons.prems have "x \<in> set xs" and "f a \<noteq> f x" and "distinct (map f xs)"
      by (auto simp: image_iff)
    with Cons.IH show ?thesis by simp
  qed
qed


lemma id_model_validate [simp]: "id' (model_validate row) = db_id row"
  by (simp add: model_validate_def)

lemma sqlite_get_user_found:
  assumes srv: "serves (r, e)" and pk: "pk_ok e" and row: "row \<in> set (table_rows e)"
    and rng: "int64 (db_id row)"
  shows "sqlite_get_user (r, e) (db_id row) = (Inr (Some (model_validate row)), snd (init_db (r, e)))"
proof -
  from init_db_serves[OF srv] obtain n where
    i: "init_db (r, e) = (Inr (), (r\<lparr>initialized := True\<rparr>,
          \<lparr>reachable = True, users_table = Some (table_rows e), create_all_calls = n\<rparr>))"
    by blast
  have p: "\<not> private_database (db_path r)" using srv by (simp add: serves_def)
  have f: "filter (\<lambda>y. db_id y = db_id row) (table_rows e) = [row]"
    using filter_key_distinct[of db_id "table_rows e" row] pk row by (simp add: pk_ok_def)
  show ?thesis
    by (simp add: sqlite_get_user_def i select_where_id_def session_table_serves[OF p] rng f)
qed



lemma sqlite_list_users_serves:
  assumes srv: "serves (r, e)"
  shows "sqlite_list_users (r, e) =
           (Inr (map model_validate (sort_key db_id (table_rows e))), snd (init_db (r, e)))"
proof -
  from init_db_serves[OF srv] obtain n where
    i: "init_db (r, e) = (Inr (), (r\<lparr>initialized := True\<rparr>,
          \<lparr>reachable = True, users_table = Some (table_rows e), create_all_calls = n\<rparr>))"
    by blast
  have p: "\<not> private_database (db_path r)" using srv by (simp add: serves_def)
  show ?thesis
    by (simp add: sqlite_list_users_def i select_order_by_id_def session_table_serves[OF p])
qed

lemma sqlite_create_user_duplicate:
  assumes srv: "serves (r, e)"
    and dup: "uname \<in> db_username ` set (table_rows e)"
  shows "sqlite_create_user A (r, e) uname mail now = (Inl IntegrityError, snd (init_db (r, e)))"
proof -
  from init_db_serves[OF srv] obtain n where
    i: "init_db (r, e) = (Inr (), (r\<lparr>initialized := True\<rparr>,
          \<lparr>reachable = True, users_table = Some (table_rows e), create_all_calls = n\<rparr>))"
    by blast
  have p: "\<not> private_database (db_path r)" using srv by (simp add: serves_def)
  have "session_add_commit_refresh A (db_path r)
          \<lparr>reachable = True, users_table = Some (table_rows e), create_all_calls = n\<rparr> uname mail now
          = Inl IntegrityError"
    using dup by (simp add: session_add_commit_refresh_def session_table_serves[OF p] Let_def)
  then show ?thesis
    by (simp add: sqlite_create_user_def i)
qed

lemma sqlite_create_user_rejected:
  assumes srv: "serves (r, e)"
    and rej: "uname \<in> db_username ` set (table_rows e) \<or> \<not> int64 (A (table_rows e))
              \<or> A (table_rows e) \<in> db_id ` set (table_rows e)"
  shows "\<exists>err. sqlite_create_user A (r, e) uname mail now = (Inl err, snd (init_db (r, e)))"
proof -
  from init_db_serves[OF srv] obtain n where
    i: "init_db (r, e) = (Inr (), (r\<lparr>initialized := True\<rparr>,
          \<lparr>reachable = True, users_table = Some (table_rows e), create_all_calls = n\<rparr>))"
    by blast
  have p: "\<not> private_database (db_path r)" using srv by (simp add: serves_def)
  have "\<exists>err. session_add_commit_refresh A (db_path r)
          \<lparr>reachable = True, users_table = Some (table_rows e), create_all_calls = n\<rparr> uname mail now
          = Inl err"
    using rej by (auto simp: session_add_commit_refresh_def session_table_serves[OF p] Let_def)
  then obtain err where "session_add_commit_refresh A (db_path r)
          \<lparr>reachable = True, users_table = Some (table_rows e), create_all_calls = n\<rparr> uname mail now
          = Inl err" by blast
  then have "sqlite_create_user A (r, e) uname mail now = (Inl err, snd (init_db (r, e)))"
    by (simp add: sqlite_create_user_def i)
  then show ?thesis by blast
qed

lemma sqlite_create_user_accepted:
  assumes srv: "serves (r, e)"
    and new: "uname \<notin> db_username ` set (table_rows e)" "int64 (A (table_rows e))"
      "A (table_rows e) \<notin> db_id ` set (table_rows e)"
  shows "\<exists>n. sqlite_create_user A (r, e) uname mail now =
            (Inr \<lparr>id' = A (table_rows e), username = uname, email = mail, created_at = now\<rparr>,
             (r\<lparr>initialized := True\<rparr>,
              \<lparr>reachable = True,
               users_table = Some (table_rows e @
                  [\<lparr>db_id = A (table_rows e), db_username = uname, db_email = mail, db_created_at = now\<rparr>]),
               create_all_calls = n\<rparr>))"
proof -
  from init_db_serves[OF srv] obtain n where
    i: "init_db (r, e) = (Inr (), (r\<lparr>initialized := True\<rparr>,
          \<lparr>reachable = True, users_table = Some (table_rows e), create_all_calls = n\<rparr>))"
    by blast
  have p: "\<not> private_database (db_path r)" using srv by (simp add: serves_def)
  let ?row = "\<lparr>db_id = A (table_rows e), db_username = uname, db_email = mail, db_created_at = now\<rparr>"
  have "session_add_commit_refresh A (db_path r)
          \<lparr>reachable = True, users_table = Some (table_rows e), create_all_calls = n\<rparr> uname mail now
          = Inr (?row, \<lparr>reachable = True, users_table = Some (table_rows e @ [?row]), create_all_calls = n\<rparr>)"
    using new by (simp add: session_add_commit_refresh_def session_table_serves[OF p] Let_def)
  then have "sqlite_create_user A (r, e) uname mail now =
            (Inr (model_validate ?row),
             (r\<lparr>initialized := True\<rparr>,
              \<lparr>reachable = True, users_table = Some (table_rows e @ [?row]), create_all_calls = n\<rparr>))"
    by (simp add: sqlite_create_user_def i)
  then show ?thesis by (simp add: model_validate_def)
qed

lemma init_db_initialized: "initialized r \<Longrightarrow> init_db (r, e) = (Inr (), (r, e))"
  by (simp add: init_db_def)

lemma init_db_unreachable:
  "\<not> initialized r \<Longrightarrow> \<not> private_database (db_path r) \<Longrightarrow> \<not> reachable e \<Longrightarrow>
     init_db (r, e) = (Inl OperationalError, (r, e))"
  by (simp add: init_db_def create_all_def)

lemma init_db_private:
  "\<not> initialized r \<Longrightarrow> private_database (db_path r) \<Longrightarrow>
     init_db (r, e) = (Inr (), (r\<lparr>initialized := True\<rparr>, e\<lparr>create_all_calls := Suc (create_all_calls e)\<rparr>))"
  by (simp add: init_db_def create_all_def)

lemma session_table_unserved:
  "private_database path \<or> \<not> reachable e \<Longrightarrow> session_table path e = Inl OperationalError"
  by (auto simp: session_table_def)

lemma sqlite_get_user_state: "snd (sqlite_get_user st k) = snd (init_db st)"
  by (cases "init_db st")
     (auto simp: sqlite_get_user_def split: sum.splits option.splits prod.splits)

lemma sqlite_list_users_state: "snd (sqlite_list_users st) = snd (init_db st)"
  by (cases "init_db st")
     (auto simp: sqlite_list_users_def split: sum.splits option.splits prod.splits)

lemma sqlite_call_unserved:
  assumes "private_database (db_path r) \<or> \<not> reachable e"
  shows "sqlite_call A (r, e) c = (Inl OperationalError, snd (init_db (r, e)))"
proof -
  consider (init) "initialized r" | (priv) "\<not> initialized r" "private_database (db_path r)"
    | (unre) "\<not> initialized r" "\<not> private_database (db_path r)" "\<not> reachable e"
    using assms by blast
  then show ?thesis
  proof cases
    case init
    have s: "session_table (db_path r) e = Inl OperationalError"
      by (rule session_table_unserved[OF assms])
    show ?thesis
      by (cases c)
         (simp_all add: init_db_initialized[OF init] sqlite_create_user_def sqlite_get_user_def
            sqlite_list_users_def session_add_commit_refresh_def select_where_id_def
            select_order_by_id_def s)
  next
    case priv
    have s: "session_table (db_path r) (e\<lparr>create_all_calls := Suc (create_all_calls e)\<rparr>)
               = Inl OperationalError"
      using priv by (simp add: session_table_def)
    show ?thesis
      by (cases c)
         (simp_all add: init_db_private[OF priv] sqlite_create_user_def sqlite_get_user_def
            sqlite_list_users_def session_add_commit_refresh_def select_where_id_def
            select_order_by_id_def s)
  next
    case unre
    show ?thesis
      by (cases c)
         (simp_all add: init_db_unreachable[OF unre] sqlite_create_user_def sqlite_get_user_def
            sqlite_list_users_def)
  qed
qed

lemma init_db_inv:
  assumes inv: "sqlite_inv rs st"
  shows "sqlite_inv rs (snd (init_db st))"
proof -
  obtain r e where st: "st = (r, e)" by (cases st)
  show ?thesis
  proof (cases "serves (r, e)")
    case True
    from init_db_serves[OF True] obtain n where
      i: "init_db (r, e) = (Inr (), (r\<lparr>initialized := True\<rparr>,
            \<lparr>reachable = True, users_table = Some (table_rows e), create_all_calls = n\<rparr>))"
      by blast
    have p: "\<not> private_database (db_path r)" using True by (simp add: serves_def)
    show ?thesis
      using inv p
      by (simp add: sqlite_inv_def st i serves_def pk_ok_def table_rows_def list_all_iff)
  next
    case False
    have u: "private_database (db_path r) \<or> \<not> reachable e"
      using False inv by (auto simp: serves_def sqlite_inv_def st split: if_splits)
    have none: "created rs = []"
      using False inv by (cases "created rs") (simp_all add: sqlite_inv_def st)
    consider (init) "initialized r" | (priv) "\<not> initialized r" "private_database (db_path r)"
      | (unre) "\<not> initialized r" "\<not> private_database (db_path r)" "\<not> reachable e"
      using u by blast
    then show ?thesis
    proof cases
      case init
      then show ?thesis using inv by (simp add: st init_db_initialized)
    next
      case priv
      then show ?thesis
        using inv none
        by (simp add: st init_db_private sqlite_inv_def pk_ok_def table_rows_def)
    next
      case unre
      then show ?thesis using inv by (simp add: st init_db_unreachable)
    qed
  qed
qed

lemma sqlite_inv_init: "pk_ok e \<Longrightarrow> sqlite_inv [] (SQLite_init path, e)"
  by (simp add: sqlite_inv_def SQLite_init_def)

lemma sqlite_inv_step:
  assumes inv: "sqlite_inv rs st" and step: "sqlite_call A st c = (x, st')"
  shows "sqlite_inv (rs @ [x]) st'"
proof -
  obtain r e where st: "st = (r, e)" by (cases st)
  have inv': "sqlite_inv rs (snd (init_db (r, e)))" using init_db_inv[OF inv] by (simp add: st)
  have quiet: "sqlite_inv (rs @ [x]) st'" if "created [x] = []" and "st' = snd (init_db (r, e))"
    using inv' that by (simp add: sqlite_inv_def created_append)
  show ?thesis
  proof (cases c)
    case (GetUser k)
    have "st' = snd (init_db (r, e))"
      using step GetUser st sqlite_get_user_state[of "(r, e)" k] by (auto split: prod.splits)
    moreover have "created [x] = []"
      using step GetUser st by (auto simp: map_sum_def split: prod.splits sum.splits)
    ultimately show ?thesis by (rule quiet[rotated])
  next
    case ListUsers
    have "st' = snd (init_db (r, e))"
      using step ListUsers st sqlite_list_users_state[of "(r, e)"] by (auto split: prod.splits)
    moreover have "created [x] = []"
      using step ListUsers st by (auto simp: map_sum_def split: prod.splits sum.splits)
    ultimately show ?thesis by (rule quiet[rotated])
  next
    case (CreateUser uname mail now)
    show ?thesis
    proof (cases "serves (r, e)")
      case False
      have u: "private_database (db_path r) \<or> \<not> reachable e"
        using False inv by (auto simp: serves_def sqlite_inv_def st split: if_splits)
      from sqlite_call_unserved[OF u, of A c]
      have "x = Inl OperationalError" and "st' = snd (init_db (r, e))"
        using step st by simp_all
      then show ?thesis using quiet by simp
    next
      case srv: True
      from inv have pk: "pk_ok e"
        and old: "list_all (\<lambda>u. int64 (id' u) \<and> u \<in> model_validate ` set (table_rows e)) (created rs)"
        by (simp_all add: sqlite_inv_def st list_all_iff)
      show ?thesis
      proof (cases "uname \<in> db_username ` set (table_rows e) \<or> \<not> int64 (A (table_rows e))
              \<or> A (table_rows e) \<in> db_id ` set (table_rows e)")
        case True
        from sqlite_create_user_rejected[where A = A and uname = uname and mail = mail and now = now,
              OF srv True]
        obtain err where "sqlite_create_user A (r, e) uname mail now = (Inl err, snd (init_db (r, e)))"
          by blast
        then have "x = Inl err" and "st' = snd (init_db (r, e))"
          using step CreateUser st by auto
        then show ?thesis using quiet by simp
      next
        case False
        let ?row = "\<lparr>db_id = A (table_rows e), db_username = uname, db_email = mail, db_created_at = now\<rparr>"
        from False have new: "uname \<notin> db_username ` set (table_rows e)"
          and rng: "int64 (A (table_rows e))"
          and fresh: "A (table_rows e) \<notin> db_id ` set (table_rows e)" by auto
        from sqlite_create_user_accepted[where A = A and uname = uname and mail = mail and now = now,
              OF srv new rng fresh]
        obtain n where
          eq: "sqlite_create_user A (r, e) uname mail now =
              (Inr \<lparr>id' = A (table_rows e), username = uname, email = mail, created_at = now\<rparr>,
               (r\<lparr>initialized := True\<rparr>,
                \<lparr>reachable = True, users_table = Some (table_rows e @ [?row]), create_all_calls = n\<rparr>))"
          by blast
        have x: "x = Inr (Created (model_validate ?row))"
          and st': "st' = (r\<lparr>initialized := True\<rparr>,
                \<lparr>reachable = True, users_table = Some (table_rows e @ [?row]), create_all_calls = n\<rparr>)"
          using step CreateUser st eq by (auto simp: model_validate_def)
        have p: "\<not> private_database (db_path r)" using srv by (simp add: serves_def)
        have s': "serves st'" using p by (simp add: st' serves_def)
        have pk': "pk_ok (snd st')" using pk fresh by (simp add: st' pk_ok_def table_rows_def)
        have rows': "table_rows (snd st') = table_rows e @ [?row]" by (simp add: st' table_rows_def)
        have "list_all (\<lambda>u. serves st' \<and> int64 (id' u) \<and> u \<in> model_validate ` set (table_rows (snd st')))
                (created (rs @ [x]))"
          using old s' rng by (auto simp: created_append x rows' list_all_iff)
        moreover have "initialized (fst st') \<and> \<not> private_database (db_path (fst st'))
                 \<longrightarrow> reachable (snd st') \<and> users_table (snd st') \<noteq> None"
          by (simp add: st')
        ultimately show ?thesis using pk' by (simp add: sqlite_inv_def)
      qed
    qed
  qed
qed

lemma sqlite_run_inv:
  assumes "pk_ok e"
  shows "sqlite_inv (sqlite_replies A path e calls) (sqlite_after A path e calls)"
  unfolding sqlite_replies_def sqlite_after_def
  by (rule run_invariant[where P = sqlite_inv, OF sqlite_inv_init[OF assms] sqlite_inv_step])

lemma get_user_created_sqlite:
  assumes "pk_ok e" and u: "u \<in> set (created (sqlite_replies A path e calls))"
  shows "fst (sqlite_get_user (sqlite_after A path e calls) (id' u)) = Inr (Some u)"
proof -
  obtain r e' where st: "sqlite_after A path e calls = (r, e')" by (cases "sqlite_after A path e calls")
  from sqlite_run_inv[OF assms(1), of A path calls]
  have pk: "pk_ok e'"
    and all: "list_all (\<lambda>u. serves (r, e') \<and> int64 (id' u) \<and> u \<in> model_validate ` set (table_rows e'))
                (created (sqlite_replies A path e calls))"
    by (simp_all add: sqlite_inv_def st)
  from all u have srv: "serves (r, e')" and rng: "int64 (id' u)"
    and "u \<in> model_validate ` set (table_rows e')"
    by (simp_all add: list_all_iff)
  then obtain row where row: "row \<in> set (table_rows e')" and ur: "u = model_validate row"
    by auto
  have rng': "int64 (db_id row)" using rng by (simp add: ur)
  show ?thesis
    using sqlite_get_user_found[OF srv pk row rng'] by (simp add: st ur)
qed

lemma init_db_static:
  "db_path (fst (snd (init_db st))) = db_path (fst st) \<and> reachable (snd (snd (init_db st))) = reachable (snd st)"
  by (cases st) (auto simp: init_db_def create_all_def split: sum.splits if_splits)

lemma sqlite_call_state:
  "\<exists>tbl. snd (sqlite_call A st c) = (fst (snd (init_db st)), (snd (snd (init_db st)))\<lparr>users_table := tbl\<rparr>)
        \<and> (tbl = None \<longrightarrow> users_table (snd (snd (init_db st))) = None)"
proof -
  obtain y r e where i: "init_db st = (y, (r, e))" by (cases "init_db st") auto
  have same: "snd (sqlite_call A st c) = (r, e) \<Longrightarrow> ?thesis"
  proof -
    assume "snd (sqlite_call A st c) = (r, e)"
    then have "snd (sqlite_call A st c) = (fst (snd (init_db st)), (snd (snd (init_db st)))\<lparr>users_table := users_table e\<rparr>)"
      by (simp add: i)
    then show ?thesis unfolding i by (intro exI[of _ "users_table e"]) simp
  qed
  show ?thesis
  proof (cases c)
    case (GetUser k)
    have "snd (sqlite_call A st c) = (r, e)"
      using sqlite_get_user_state[of st k] by (cases "sqlite_get_user st k") (simp add: GetUser i)
    then show ?thesis by (rule same)
  next
    case ListUsers
    have "snd (sqlite_call A st c) = (r, e)"
      using sqlite_list_users_state[of st] by (cases "sqlite_list_users st") (simp add: ListUsers i)
    then show ?thesis by (rule same)
  next
    case (CreateUser uname mail now)
    show ?thesis
    proof (cases y)
      case (Inl err)
      then have "snd (sqlite_call A st c) = (r, e)"
        by (simp add: CreateUser sqlite_create_user_def i)
      then show ?thesis by (rule same)
    next
      case (Inr ok)
      show ?thesis
      proof (cases "session_add_commit_refresh A (db_path r) e uname mail now")
        case (Inl err)
        then have "snd (sqlite_call A st c) = (r, e)"
          by (simp add: CreateUser sqlite_create_user_def i Inr)
        then show ?thesis by (rule same)
      next
        case res: (Inr p)
        then obtain row rows where "p = (row, e\<lparr>users_table := Some (rows @ [row])\<rparr>)"
          by (auto simp: session_add_commit_refresh_def Let_def split: sum.splits if_splits)
        with res have "snd (sqlite_call A st c) = (r, e\<lparr>users_table := Some (rows @ [row])\<rparr>)"
          by (simp add: CreateUser sqlite_create_user_def i Inr)
        then show ?thesis unfolding i by (intro exI[of _ "Some (rows @ [row])"]) simp
      qed
    qed
  qed
qed

lemma sqlite_call_flag_count:
  "initialized (fst (snd (sqlite_call A st c))) = initialized (fst (snd (init_db st)))
   \<and> create_all_calls (snd (snd (sqlite_call A st c))) = create_all_calls (snd (snd (init_db st)))
   \<and> (users_table (snd (snd (init_db st))) \<noteq> None \<longrightarrow> users_table (snd (snd (sqlite_call A st c))) \<noteq> None)"
proof -
  from sqlite_call_state[where A = A and st = st and c = c] obtain tbl where
    s: "snd (sqlite_call A st c) = (fst (snd (init_db st)), (snd (snd (init_db st)))\<lparr>users_table := tbl\<rparr>)"
    and t: "tbl = None \<longrightarrow> users_table (snd (snd (init_db st))) = None"
    by blast
  show ?thesis using t by (auto simp: s)
qed

lemma sqlite_call_skips:
  assumes "initialized (fst st)"
  shows "initialized (fst (snd (sqlite_call A st c)))
         \<and> create_all_calls (snd (snd (sqlite_call A st c))) = create_all_calls (snd st)"
proof -
  have "snd (init_db st) = st" using assms by (cases st) (simp add: init_db_def)
  then show ?thesis using sqlite_call_flag_count[where A = A and st = st and c = c] assms by simp
qed

lemma sqlite_run_skips:
  assumes "initialized (fst st)"
  shows "initialized (fst (snd (run (sqlite_call A) st cs)))
         \<and> create_all_calls (snd (snd (run (sqlite_call A) st cs))) = create_all_calls (snd st)"
proof -
  let ?P = "\<lambda>(rs :: (error + reply) list) s. initialized (fst s) \<and> create_all_calls (snd s) = create_all_calls (snd st)"
  have "?P (fst (run (sqlite_call A) st cs)) (snd (run (sqlite_call A) st cs))"
  proof (rule run_invariant[where P = ?P])
    show "?P [] st" using assms by simp
  next
    fix rs s c x s'
    assume "?P rs s" and "sqlite_call A s c = (x, s')"
    then show "?P (rs @ [x]) s'"
      using sqlite_call_skips[where A = A and st = s and c = c] by simp
  qed
  then show ?thesis by simp
qed

lemma sqlite_run_unreachable:
  assumes p: "\<not> private_database path" and u: "\<not> reachable e"
  shows "run (sqlite_call A) (SQLite_init path, e) cs
           = (replicate (length cs) (Inl OperationalError), (SQLite_init path, e))"
proof (induction cs rule: rev_induct)
  case Nil
  show ?case by simp
next
  case (snoc c cs)
  have i: "init_db (SQLite_init path, e) = (Inl OperationalError, (SQLite_init path, e))"
    using p u by (simp add: init_db_unreachable SQLite_init_def)
  have "sqlite_call A (SQLite_init path, e) c = (Inl OperationalError, (SQLite_init path, e))"
    using sqlite_call_unserved[of "SQLite_init path" e A c] u i by simp
  then show ?case
    using snoc by (simp add: run_snoc replicate_append_same)
qed

lemma sqlite_run_static:
  "db_path (fst (sqlite_after A path e calls)) = path
   \<and> reachable (snd (sqlite_after A path e calls)) = reachable e"
proof -
  let ?P = "\<lambda>(rs :: (error + reply) list) s. db_path (fst s) = path \<and> reachable (snd s) = reachable e"
  have "?P (fst (run (sqlite_call A) (SQLite_init path, e) calls))
           (snd (run (sqlite_call A) (SQLite_init path, e) calls))"
  proof (rule run_invariant[where P = ?P])
    show "?P [] (SQLite_init path, e)" by (simp add: SQLite_init_def)
  next
    fix rs s c x s'
    assume p: "?P rs s" and st: "sqlite_call A s c = (x, s')"
    from sqlite_call_state[where A = A and st = s and c = c] st obtain tbl where
      "s' = (fst (snd (init_db s)), (snd (snd (init_db s)))\<lparr>users_table := tbl\<rparr>)"
      by auto
    then show "?P (rs @ [x]) s'"
      using p init_db_static[of s] by simp
  qed
  then show ?thesis by (simp add: sqlite_after_def)
qed

lemma sqlite_after_serves:
  assumes pk: "pk_ok e" and p: "\<not> private_database path" and re: "reachable e"
  shows "serves (sqlite_after A path e calls) \<and> pk_ok (snd (sqlite_after A path e calls))"
proof -
  from sqlite_run_inv[OF pk, of A path calls] sqlite_run_static[of A path e calls] p re
  show ?thesis
    by (auto simp: sqlite_inv_def serves_def split: if_splits)
qed


section \<open>Letter case\<close>

lemma char_eq_nat: "(a = b) = ((of_char a :: nat) = of_char b)"
  by simp

lemma lower_char_eq_iff:
  assumes lo: "97 \<le> (of_char w :: nat)" and hi: "(of_char w :: nat) \<le> 122"
  shows "lower_char c = w \<longleftrightarrow> c = w \<or> c = upper_char w"
proof -
  have up: "(of_char (upper_char w) :: nat) = of_char w - 32"
    using lo hi by (simp add: upper_char_def)
  show ?thesis
  proof (cases "65 \<le> (of_char c :: nat) \<and> (of_char c :: nat) \<le> 90")
    case True
    then have low: "(of_char (lower_char c) :: nat) = of_char c + 32"
      by (simp add: lower_char_def)
    have "lower_char c = w \<longleftrightarrow> (of_char c :: nat) + 32 = of_char w"
      by (subst char_eq_nat) (simp only: low)
    moreover have "c = upper_char w \<longleftrightarrow> (of_char c :: nat) = of_char w - 32"
      by (subst char_eq_nat) (simp only: up)
    moreover have "c \<noteq> w" using True lo by auto
    ultimately show ?thesis using lo by auto
  next
    case False
    then have "lower_char c = c" by (auto simp: lower_char_def Let_def)
    moreover have "c \<noteq> upper_char w"
    proof
      assume "c = upper_char w"
      then have "(of_char c :: nat) = of_char w - 32" using up by simp
      with False lo hi show False by auto
    qed
    ultimately show ?thesis by auto
  qed
qed

lemma map_lower_char_eq_iff:
  "lower_letters word \<Longrightarrow> map lower_char s = word \<longleftrightarrow> in_any_letter_case word s"
proof (induction word arbitrary: s)
  case Nil
  then show ?case by (simp add: in_any_letter_case_def)
next
  case (Cons w word)
  then have w: "97 \<le> (of_char w :: nat)" "(of_char w :: nat) \<le> 122" and rest: "lower_letters word"
    by (simp_all add: lower_letters_def)
  show ?case
  proof (cases s)
    case Nil
    then show ?thesis by (simp add: in_any_letter_case_def)
  next
    case (Cons c s')
    have "map lower_char s' = word \<longleftrightarrow> in_any_letter_case word s'" using Cons.IH[OF rest] .
    then show ?thesis
      using lower_char_eq_iff[OF w, of c]
      by (simp add: Cons in_any_letter_case_def)
  qed
qed

lemma spelling_is_ascii:
  "lower_letters word \<Longrightarrow> in_any_letter_case word s \<Longrightarrow> list_all is_ascii s"
proof (induction word arbitrary: s)
  case Nil
  then show ?case by (simp add: in_any_letter_case_def)
next
  case (Cons w word)
  then have w: "97 \<le> (of_char w :: nat)" "(of_char w :: nat) \<le> 122" and rest: "lower_letters word"
    by (simp_all add: lower_letters_def)
  from Cons.prems(2) obtain c s' where s: "s = c # s'" and c: "c = w \<or> c = upper_char w"
    and tl: "in_any_letter_case word s'"
    by (cases s) (auto simp: in_any_letter_case_def)
  have "(of_char (upper_char w) :: nat) = of_char w - 32"
    using w by (simp add: upper_char_def)
  with c w have "is_ascii c" by (auto simp: is_ascii_def)
  with Cons.IH[OF rest tl] show ?case by (simp add: s)
qed

lemma lower_spelling:
  assumes "lower_letters word" and "in_any_letter_case word s"
  shows "lower ul s = word"
  using spelling_is_ascii[OF assms] map_lower_char_eq_iff[OF assms(1), of s] assms(2)
  by (simp add: lower_def)


lemma lower_letters_memory: "lower_letters ''memory''"
  by (simp add: lower_letters_def)



section \<open>Properties of the repository\<close>

text \<open>
  C1. After any run of calls on one instance, \<open>get_user\<close> with the id of a user that a
  \<open>create_user\<close> of the run returned gives back exactly that record (same id, username,
  email and created_at): on the in-memory variant from a fresh instance, and on the
  persistent variant from a fresh instance over any database whose primary keys are
  distinct, whatever keys the engine assigns.
\<close>

theorem get_user_returns_created_record:
  "(u \<in> set (created (mem_replies calls)) \<longrightarrow>
      fst (mem_get_user (mem_after calls) (id' u)) = Inr (Some u))
   \<and> (pk_ok e \<longrightarrow> u \<in> set (created (sqlite_replies A path e calls)) \<longrightarrow>
      fst (sqlite_get_user (sqlite_after A path e calls) (id' u)) = Inr (Some u))"
proof (intro conjI impI)
  assume "u \<in> set (created (mem_replies calls))"
  then show "fst (mem_get_user (mem_after calls) (id' u)) = Inr (Some u)"
    by (rule get_user_created_mem)
next
  assume "pk_ok e" and "u \<in> set (created (sqlite_replies A path e calls))"
  then show "fst (sqlite_get_user (sqlite_after A path e calls) (id' u)) = Inr (Some u)"
    by (rule get_user_created_sqlite)
qed

theorem get_user_returns_created_record_witness:
  "\<lparr>id' = 2, username = ''bob'', email = ''bob@x.com'', created_at = 20\<rparr>
     \<in> set (created (mem_replies
          [CreateUser ''alice'' ''alice@x.com'' 10, CreateUser ''bob'' ''bob@x.com'' 20, ListUsers]))
   \<and> fst (mem_get_user (mem_after
          [CreateUser ''alice'' ''alice@x.com'' 10, CreateUser ''bob'' ''bob@x.com'' 20, ListUsers]) 2)
       = Inr (Some \<lparr>id' = 2, username = ''bob'', email = ''bob@x.com'', created_at = 20\<rparr>)
   \<and> pk_ok \<lparr>reachable = True, users_table = None, create_all_calls = 0\<rparr>
   \<and> \<lparr>id' = 2, username = ''bob'', email = ''bob@x.com'', created_at = 20\<rparr>
     \<in> set (created (sqlite_replies sqlite_rowid ''users.db'' \<lparr>reachable = True, users_table = None, create_all_calls = 0\<rparr>
          [CreateUser ''alice'' ''alice@x.com'' 10, CreateUser ''bob'' ''bob@x.com'' 20, ListUsers]))
   \<and> fst (sqlite_get_user (sqlite_after sqlite_rowid ''users.db'' \<lparr>reachable = True, users_table = None, create_all_calls = 0\<rparr>
          [CreateUser ''alice'' ''alice@x.com'' 10, CreateUser ''bob'' ''bob@x.com'' 20, ListUsers]) 2)
       = Inr (Some \<lparr>id' = 2, username = ''bob'', email = ''bob@x.com'', created_at = 20\<rparr>)"
proof -
  let ?bob = "\<lparr>id' = 2, username = ''bob'', email = ''bob@x.com'', created_at = 20\<rparr>"
  let ?calls = "[CreateUser ''alice'' ''alice@x.com'' 10, CreateUser ''bob'' ''bob@x.com'' 20, ListUsers]"
  let ?e = "\<lparr>reachable = True, users_table = None, create_all_calls = 0\<rparr>"
  have h1: "?bob \<in> set (created (mem_replies ?calls))" by code_simp
  have h2: "pk_ok ?e" by code_simp
  have h3: "?bob \<in> set (created (sqlite_replies sqlite_rowid ''users.db'' ?e ?calls))" by code_simp
  show ?thesis
    using get_user_returns_created_record
            [where u = ?bob and calls = ?calls and e = ?e and A = sqlite_rowid and path = "''users.db''"]
          h1 h2 h3
    by simp
qed

text \<open>
  C2. In any run of calls on a fresh in-memory instance, the ids given to the users
  created are 1, 2, 3 and so on in call order: they are pairwise distinct, strictly
  increasing, and the first one is 1.
\<close>

theorem mem_ids_increase_from_one:
  "map id' (created (mem_replies calls)) = [1..int (length (created (mem_replies calls)))]
   \<and> distinct (map id' (created (mem_replies calls)))
   \<and> sorted_wrt (<) (map id' (created (mem_replies calls)))
   \<and> (created (mem_replies calls) \<noteq> [] \<longrightarrow> id' (hd (created (mem_replies calls))) = 1)"
proof -
  let ?us = "created (mem_replies calls)"
  have eq: "map id' ?us = [1..int (length ?us)]" by (rule mem_created_ids)
  have d: "distinct (map id' ?us)" by (subst eq) simp
  have s: "sorted_wrt (<) (map id' ?us)" by (subst eq) simp
  have h: "id' (hd ?us) = 1" if ne: "?us \<noteq> []"
  proof -
    have "hd (map id' ?us) = hd [1..int (length ?us)]" using eq by simp
    moreover have "1 \<le> int (length ?us)" using ne by (cases ?us) auto
    ultimately show ?thesis using ne by (simp add: hd_map upto_rec1)
  qed
  from eq d s h show ?thesis by blast
qed

theorem mem_ids_increase_from_one_witness:
  "created (mem_replies
      [CreateUser ''alice'' ''alice@x.com'' 10, GetUser 999, CreateUser ''alice'' ''a2@x.com'' 20]) \<noteq> []
   \<and> map id' (created (mem_replies
      [CreateUser ''alice'' ''alice@x.com'' 10, GetUser 999, CreateUser ''alice'' ''a2@x.com'' 20])) = [1, 2]
   \<and> id' (hd (created (mem_replies
      [CreateUser ''alice'' ''alice@x.com'' 10, GetUser 999, CreateUser ''alice'' ''a2@x.com'' 20]))) = 1"
proof -
  let ?calls = "[CreateUser ''alice'' ''alice@x.com'' 10, GetUser 999, CreateUser ''alice'' ''a2@x.com'' 20]"
  have ne: "created (mem_replies ?calls) \<noteq> []" by code_simp
  have len: "int (length (created (mem_replies ?calls))) = 2" by code_simp
  have up: "[1..(2::int)] = [1, 2]" by code_simp
  show ?thesis
    using mem_ids_increase_from_one[of ?calls] ne unfolding len up by simp
qed

text \<open>
  C3, as the code has it. In every state reached by a run of calls on a fresh in-memory
  instance, \<open>list_users\<close> succeeds and returns the users created so far in ascending
  order of id; a user is in the result exactly when some \<open>get_user\<close> finds it, and the
  result is empty exactly when nothing is stored. On the persistent variant (fresh
  instance on a database file with distinct primary keys, rows stored in whatever order)
  \<open>list_users\<close> does the same whenever the file can be opened: the result is in ascending
  order of id and holds, once for each row of the table, a user with that row's id,
  username, email and created_at. When the file cannot be opened \<open>list_users\<close> raises the
  storage error. Instances on a private in-memory database are left aside.
\<close>

theorem list_users_sorted_by_id:
  "(\<exists>us. mem_list_users (mem_after calls) = (Inr us, mem_after calls)
        \<and> sorted_wrt (<) (map id' us)
        \<and> us = created (mem_replies calls)
        \<and> (\<forall>u. u \<in> set us \<longleftrightarrow> (\<exists>k. fst (mem_get_user (mem_after calls) k) = Inr (Some u)))
        \<and> (us = [] \<longleftrightarrow> users (mem_after calls) = []))
   \<and> (pk_ok e \<longrightarrow> \<not> private_database path \<longrightarrow> reachable e \<longrightarrow>
        (\<exists>us st. sqlite_list_users (sqlite_after A path e calls) = (Inr us, st)
           \<and> sorted_wrt (<) (map id' us)
           \<and> mset (map (\<lambda>u. (id' u, username u, email u, created_at u)) us)
               = mset (map (\<lambda>row. (db_id row, db_username row, db_email row, db_created_at row))
                         (table_rows (snd (sqlite_after A path e calls))))
           \<and> (us = [] \<longleftrightarrow> table_rows (snd (sqlite_after A path e calls)) = [])))
   \<and> (\<not> private_database path \<longrightarrow> \<not> reachable e \<longrightarrow>
        fst (sqlite_list_users (sqlite_after A path e calls)) = Inl OperationalError)"
proof (intro conjI impI)
  let ?s = "mem_after calls" and ?us = "created (mem_replies calls)"
  have us: "users ?s = map (\<lambda>u. (id' u, u)) ?us" by (rule mem_users_after)
  have l: "mem_list_users ?s = (Inr ?us, ?s)"
    by (simp add: mem_list_users_def us comp_def)
  have srt: "sorted_wrt (<) (map id' ?us)"
    by (subst mem_created_ids) simp
  have d: "distinct (map fst (users ?s))"
    using srt by (simp add: us comp_def strict_sorted_iff)
  have "set ?us = snd ` set (users ?s)" by (simp add: us image_comp comp_def)
  also have "\<dots> = ran (map_of (users ?s))" using ran_distinct[OF d] by simp
  finally have "\<forall>u. u \<in> set ?us \<longleftrightarrow> (\<exists>k. fst (mem_get_user ?s k) = Inr (Some u))"
    by (auto simp: ran_def mem_get_user_def)
  moreover have "?us = [] \<longleftrightarrow> users ?s = []" by (simp add: us)
  ultimately show "\<exists>us. mem_list_users ?s = (Inr us, ?s)
        \<and> sorted_wrt (<) (map id' us)
        \<and> us = ?us
        \<and> (\<forall>u. u \<in> set us \<longleftrightarrow> (\<exists>k. fst (mem_get_user ?s k) = Inr (Some u)))
        \<and> (us = [] \<longleftrightarrow> users ?s = [])"
    using l srt by blast
next
  assume pk0: "pk_ok e" and p: "\<not> private_database path" and re: "reachable e"
  obtain r e' where st: "sqlite_after A path e calls = (r, e')"
    by (cases "sqlite_after A path e calls")
  from sqlite_after_serves[OF pk0 p re, of A calls]
  have srv: "serves (r, e')" and pk: "pk_ok e'" by (simp_all add: st)
  let ?us = "map model_validate (sort_key db_id (table_rows e'))"
  have ids: "map id' ?us = map db_id (sort_key db_id (table_rows e'))"
    by (simp add: comp_def)
  have "mset (map db_id (sort_key db_id (table_rows e'))) = mset (map db_id (table_rows e'))"
    by simp
  then have "distinct (map db_id (sort_key db_id (table_rows e')))"
    using pk mset_eq_imp_distinct_iff unfolding pk_ok_def by blast
  then have srt: "sorted_wrt (<) (map id' ?us)"
    unfolding ids by (simp add: strict_sorted_iff)
  have f: "(\<lambda>u. (id' u, username u, email u, created_at u)) \<circ> model_validate
             = (\<lambda>row. (db_id row, db_username row, db_email row, db_created_at row))"
    by (simp add: fun_eq_iff model_validate_def)
  have ms: "mset (map (\<lambda>u. (id' u, username u, email u, created_at u)) ?us)
          = mset (map (\<lambda>row. (db_id row, db_username row, db_email row, db_created_at row))
              (table_rows e'))"
    unfolding map_map f by simp
  have em: "?us = [] \<longleftrightarrow> table_rows e' = []"
    by (metis (no_types) map_is_Nil_conv set_empty set_sort)
  have l: "sqlite_list_users (sqlite_after A path e calls) = (Inr ?us, snd (init_db (r, e')))"
    using sqlite_list_users_serves[OF srv] by (simp add: st)
  have rows: "table_rows (snd (sqlite_after A path e calls)) = table_rows e'" by (simp add: st)
  show "\<exists>us st. sqlite_list_users (sqlite_after A path e calls) = (Inr us, st)
           \<and> sorted_wrt (<) (map id' us)
           \<and> mset (map (\<lambda>u. (id' u, username u, email u, created_at u)) us)
               = mset (map (\<lambda>row. (db_id row, db_username row, db_email row, db_created_at row))
                         (table_rows (snd (sqlite_after A path e calls))))
           \<and> (us = [] \<longleftrightarrow> table_rows (snd (sqlite_after A path e calls)) = [])"
    unfolding rows using l srt ms em by blast
next
  assume p: "\<not> private_database path" and u: "\<not> reachable e"
  have "sqlite_after A path e calls = (SQLite_init path, e)"
    using sqlite_run_unreachable[OF p u, of A calls] by (simp add: sqlite_after_def)
  moreover have "sqlite_call A (SQLite_init path, e) ListUsers
                   = (Inl OperationalError, snd (init_db (SQLite_init path, e)))"
    using sqlite_call_unserved[of "SQLite_init path" e A ListUsers] u by simp
  ultimately show "fst (sqlite_list_users (sqlite_after A path e calls)) = Inl OperationalError"
    by (cases "sqlite_list_users (SQLite_init path, e)") (auto simp: map_sum_def split: sum.splits)
qed

theorem list_users_sorted_by_id_witness:
  "pk_ok \<lparr>reachable = True, users_table = Some
             [\<lparr>db_id = 7, db_username = ''zoe'', db_email = ''zoe@x.com'', db_created_at = 1\<rparr>,
              \<lparr>db_id = 3, db_username = ''yan'', db_email = ''yan@x.com'', db_created_at = 2\<rparr>],
          create_all_calls = 0\<rparr>
   \<and> \<not> private_database ''users.db''
   \<and> fst (sqlite_list_users (sqlite_after sqlite_rowid ''users.db''
        \<lparr>reachable = True, users_table = Some
             [\<lparr>db_id = 7, db_username = ''zoe'', db_email = ''zoe@x.com'', db_created_at = 1\<rparr>,
              \<lparr>db_id = 3, db_username = ''yan'', db_email = ''yan@x.com'', db_created_at = 2\<rparr>],
          create_all_calls = 0\<rparr>
        [CreateUser ''alice'' ''alice@x.com'' 10, CreateUser ''zoe'' ''z2@x.com'' 20]))
       = Inr [\<lparr>id' = 3, username = ''yan'', email = ''yan@x.com'', created_at = 2\<rparr>,
              \<lparr>id' = 7, username = ''zoe'', email = ''zoe@x.com'', created_at = 1\<rparr>,
              \<lparr>id' = 8, username = ''alice'', email = ''alice@x.com'', created_at = 10\<rparr>]
   \<and> sorted_wrt (<) (map id'
             [\<lparr>id' = 3, username = ''yan'', email = ''yan@x.com'', created_at = 2\<rparr>,
              \<lparr>id' = 7, username = ''zoe'', email = ''zoe@x.com'', created_at = 1\<rparr>,
              \<lparr>id' = 8, username = ''alice'', email = ''alice@x.com'', created_at = 10\<rparr>])
   \<and> fst (mem_list_users (mem_after
        [CreateUser ''alice'' ''alice@x.com'' 10, CreateUser ''zoe'' ''z2@x.com'' 20]))
       = Inr [\<lparr>id' = 1, username = ''alice'', email = ''alice@x.com'', created_at = 10\<rparr>,
              \<lparr>id' = 2, username = ''zoe'', email = ''z2@x.com'', created_at = 20\<rparr>]
   \<and> fst (sqlite_list_users (sqlite_after sqlite_rowid ''users.db''
        \<lparr>reachable = False, users_table = None, create_all_calls = 0\<rparr>
        [CreateUser ''alice'' ''alice@x.com'' 10, CreateUser ''zoe'' ''z2@x.com'' 20]))
       = Inl OperationalError"
proof -
  let ?e = "\<lparr>reachable = True, users_table = Some
             [\<lparr>db_id = 7, db_username = ''zoe'', db_email = ''zoe@x.com'', db_created_at = 1\<rparr>,
              \<lparr>db_id = 3, db_username = ''yan'', db_email = ''yan@x.com'', db_created_at = 2\<rparr>],
          create_all_calls = 0\<rparr>"
  let ?d = "\<lparr>reachable = False, users_table = None, create_all_calls = 0\<rparr>"
  let ?calls = "[CreateUser ''alice'' ''alice@x.com'' 10, CreateUser ''zoe'' ''z2@x.com'' 20]"
  let ?l = "[\<lparr>id' = 3, username = ''yan'', email = ''yan@x.com'', created_at = 2\<rparr>,
             \<lparr>id' = 7, username = ''zoe'', email = ''zoe@x.com'', created_at = 1\<rparr>,
             \<lparr>id' = 8, username = ''alice'', email = ''alice@x.com'', created_at = 10\<rparr>]"
  have pk: "pk_ok ?e" by code_simp
  have p: "\<not> private_database ''users.db''" by code_simp
  have re: "reachable ?e" and un: "\<not> reachable ?d" by simp_all
  have ev: "fst (sqlite_list_users (sqlite_after sqlite_rowid ''users.db'' ?e ?calls)) = Inr ?l"
    by code_simp
  have created: "created (mem_replies ?calls)
       = [\<lparr>id' = 1, username = ''alice'', email = ''alice@x.com'', created_at = 10\<rparr>,
          \<lparr>id' = 2, username = ''zoe'', email = ''z2@x.com'', created_at = 20\<rparr>]"
    by code_simp
  from list_users_sorted_by_id[where e = ?e and A = sqlite_rowid and path = "''users.db''" and calls = ?calls]
    pk p re
  obtain us st where l: "sqlite_list_users (sqlite_after sqlite_rowid ''users.db'' ?e ?calls) = (Inr us, st)"
    and s: "sorted_wrt (<) (map id' us)"
    by blast
  from ev have "us = ?l" unfolding l by simp
  with s have srt: "sorted_wrt (<) (map id' ?l)" by simp
  from list_users_sorted_by_id[where calls = ?calls]
  have mv: "fst (mem_list_users (mem_after ?calls)) = Inr (created (mem_replies ?calls))"
    by auto
  from list_users_sorted_by_id[where e = ?d and A = sqlite_rowid and path = "''users.db''" and calls = ?calls]
    p un
  have dn: "fst (sqlite_list_users (sqlite_after sqlite_rowid ''users.db'' ?d ?calls)) = Inl OperationalError"
    by blast
  from pk p ev srt mv dn show ?thesis unfolding created by blast
qed

text \<open>
  C3, as the specification words it, fails on the persistent variant: a fresh instance on
  a database file that cannot be opened is a state in which no user exists, and
  \<open>list_users\<close> raises there instead of returning the empty sequence.
\<close>

theorem list_users_raises_when_unreachable_counterexample:
  "table_rows (snd (sqlite_after sqlite_rowid ''users.db''
        \<lparr>reachable = False, users_table = None, create_all_calls = 0\<rparr> [])) = []
   \<and> fst (sqlite_list_users (sqlite_after sqlite_rowid ''users.db''
        \<lparr>reachable = False, users_table = None, create_all_calls = 0\<rparr> [])) = Inl OperationalError"
  by code_simp






text \<open>
  C6. On the in-memory variant no operation fails, in any state and for all strings:
  \<open>create_user\<close> returns a user with the given username and stores it, \<open>get_user\<close> and
  \<open>list_users\<close> return a result. After any run on a fresh instance \<open>create_user\<close> adds one
  record to what \<open>list_users\<close> returns, whether or not the username is already stored.
  The persistent variant, on a database file that can be opened, refuses a username that
  a row of its table already has: the call raises \<open>IntegrityError\<close> and the table keeps
  its rows.
\<close>

theorem mem_never_fails_sqlite_rejects_duplicate_username:
  "(\<exists>u s'. mem_create_user s n m t = (Inr u, s') \<and> username u = n \<and> map_of (users s') (id' u) = Some u)
   \<and> (\<exists>found. mem_get_user s k = (Inr found, s))
   \<and> (\<exists>us. mem_list_users s = (Inr us, s))
   \<and> (\<exists>u s'. mem_create_user (mem_after calls) n m t = (Inr u, s') \<and> username u = n
         \<and> mem_list_users s' = (Inr (created (mem_replies calls) @ [u]), s'))
   \<and> (\<not> private_database (db_path r) \<longrightarrow> reachable e \<longrightarrow>
       users_table e = Some rows \<longrightarrow> n \<in> db_username ` set rows \<longrightarrow>
         sqlite_create_user A (r, e) n m t = (Inl IntegrityError, snd (init_db (r, e)))
         \<and> users_table (snd (snd (init_db (r, e)))) = Some rows)"
proof (intro conjI impI)
  show "\<exists>u s'. mem_create_user s n m t = (Inr u, s') \<and> username u = n \<and> map_of (users s') (id' u) = Some u"
    by (simp add: mem_create_user_def Let_def update_conv')
  show "\<exists>found. mem_get_user s k = (Inr found, s)" by (simp add: mem_get_user_def)
  show "\<exists>us. mem_list_users s = (Inr us, s)" by (simp add: mem_list_users_def)
next
  let ?s = "mem_after calls" and ?us = "created (mem_replies calls)"
  let ?c = "CreateUser n m t"
  define u where "u = \<lparr>id' = next_id ?s, username = n, email = m, created_at = t\<rparr>"
  define s' where "s' = snd (mem_create_user ?s n m t)"
  have cr: "mem_create_user ?s n m t = (Inr u, s')"
    by (simp add: mem_create_user_def Let_def u_def s'_def)
  then have step: "mem_call ?s ?c = (Inr (Created u), s')" by simp
  have "mem_inv (mem_replies calls @ [Inr (Created u)]) s'"
    by (rule mem_inv_step[OF mem_run_inv step])
  then have "users s' = map (\<lambda>u. (id' u, u)) (?us @ [u])"
    by (simp add: mem_inv_def created_append)
  then have "mem_list_users s' = (Inr (?us @ [u]), s')"
    by (simp add: mem_list_users_def comp_def)
  moreover have "username u = n" by (simp add: u_def)
  ultimately show "\<exists>u s'. mem_create_user ?s n m t = (Inr u, s') \<and> username u = n
         \<and> mem_list_users s' = (Inr (?us @ [u]), s')"
    using cr by blast
next
  assume p: "\<not> private_database (db_path r)" and re: "reachable e"
    and ut: "users_table e = Some rows" and dup: "n \<in> db_username ` set rows"
  have rows: "table_rows e = rows" using ut by (simp add: table_rows_def)
  have srv: "serves (r, e)" using p re ut by (simp add: serves_def)
  from init_db_serves[OF srv] show "users_table (snd (snd (init_db (r, e)))) = Some rows"
    unfolding rows by auto
  have "n \<in> db_username ` set (table_rows e)" using dup rows by simp
  from sqlite_create_user_duplicate[where A = A and uname = n and mail = m and now = t, OF srv this]
  show "sqlite_create_user A (r, e) n m t = (Inl IntegrityError, snd (init_db (r, e)))" .
qed

theorem mem_never_fails_sqlite_rejects_duplicate_username_witness:
  "''alice'' \<in> username ` set (created (mem_replies [CreateUser ''alice'' ''alice@x.com'' 10]))
   \<and> map_sum id (map username) (fst (mem_list_users (snd (mem_create_user
         (mem_after [CreateUser ''alice'' ''alice@x.com'' 10]) ''alice'' ''a2@x.com'' 20))))
       = Inr [''alice'', ''alice'']
   \<and> \<not> private_database (db_path \<lparr>db_path = ''users.db'', initialized = True\<rparr>)
   \<and> reachable \<lparr>reachable = True, users_table = Some
             [\<lparr>db_id = 1, db_username = ''alice'', db_email = ''alice@x.com'', db_created_at = 10\<rparr>],
          create_all_calls = 1\<rparr>
   \<and> users_table \<lparr>reachable = True, users_table = Some
             [\<lparr>db_id = 1, db_username = ''alice'', db_email = ''alice@x.com'', db_created_at = 10\<rparr>],
          create_all_calls = 1\<rparr>
       = Some [\<lparr>db_id = 1, db_username = ''alice'', db_email = ''alice@x.com'', db_created_at = 10\<rparr>]
   \<and> ''alice'' \<in> db_username `
         set [\<lparr>db_id = 1, db_username = ''alice'', db_email = ''alice@x.com'', db_created_at = 10\<rparr>]
   \<and> fst (sqlite_create_user sqlite_rowid
         (\<lparr>db_path = ''users.db'', initialized = True\<rparr>,
          \<lparr>reachable = True, users_table = Some
             [\<lparr>db_id = 1, db_username = ''alice'', db_email = ''alice@x.com'', db_created_at = 10\<rparr>],
           create_all_calls = 1\<rparr>) ''alice'' ''a2@x.com'' 20) = Inl IntegrityError"
proof -
  let ?calls = "[CreateUser ''alice'' ''alice@x.com'' 10]"
  let ?rows = "[\<lparr>db_id = 1, db_username = ''alice'', db_email = ''alice@x.com'', db_created_at = 10\<rparr>]"
  let ?e = "\<lparr>reachable = True, users_table = Some ?rows, create_all_calls = 1\<rparr>"
  let ?r = "\<lparr>db_path = ''users.db'', initialized = True\<rparr>"
  have h1: "''alice'' \<in> username ` set (created (mem_replies ?calls))" by code_simp
  have h0: "\<not> private_database (db_path ?r)" by code_simp
  have h2: "reachable ?e \<and> users_table ?e = Some ?rows" by simp
  have h3: "''alice'' \<in> db_username ` set ?rows" by simp
  have ev: "map_sum id (map username) (fst (mem_list_users (snd (mem_create_user
         (mem_after ?calls) ''alice'' ''a2@x.com'' 20)))) = Inr [''alice'', ''alice'']"
    by code_simp
  have "sqlite_create_user sqlite_rowid (?r, ?e) ''alice'' ''a2@x.com'' 20
          = (Inl IntegrityError, snd (init_db (?r, ?e)))"
    using mem_never_fails_sqlite_rejects_duplicate_username
            [where e = ?e and rows = ?rows and n = "''alice''" and A = sqlite_rowid and r = ?r
               and m = "''a2@x.com''" and t = 20]
          h0 h2 h3
    by blast
  then have "fst (sqlite_create_user sqlite_rowid (?r, ?e) ''alice'' ''a2@x.com'' 20) = Inl IntegrityError"
    by simp
  with h0 h1 h2 h3 ev show ?thesis by blast
qed

text \<open>
  C7, as the code has it. A freshly constructed persistent instance has its flag unset.
  When its database file can be opened, the first call, whatever it is, runs
  \<open>create_all\<close> once, sets the flag and leaves the table in existence; after any
  further calls \<open>create_all\<close> has still run exactly once and the flag is still set.
  When the file cannot be opened, every call raises the storage error, \<open>create_all\<close> is
  not run and the instance stays as constructed, flag unset, so that the next call tries
  again. A call on an instance whose flag is set never runs \<open>create_all\<close>. On a file
  that can be opened \<open>create_all\<close> creates the table only if it is absent: it keeps the
  rows of an existing table, and running it twice gives the table that running it once
  gives. Instances on a private in-memory database are left aside.
\<close>

theorem sqlite_schema_created_once:
  "\<not> initialized (SQLite_init path)
   \<and> (\<not> private_database path \<longrightarrow> reachable e \<longrightarrow>
        initialized (fst (snd (sqlite_call A (SQLite_init path, e) c)))
        \<and> create_all_calls (snd (snd (sqlite_call A (SQLite_init path, e) c))) = Suc (create_all_calls e)
        \<and> users_table (snd (snd (sqlite_call A (SQLite_init path, e) c))) \<noteq> None
        \<and> initialized (fst (sqlite_after A path e (c # cs)))
        \<and> create_all_calls (snd (sqlite_after A path e (c # cs))) = Suc (create_all_calls e))
   \<and> (\<not> private_database path \<longrightarrow> \<not> reachable e \<longrightarrow>
        sqlite_call A (SQLite_init path, e) c = (Inl OperationalError, (SQLite_init path, e))
        \<and> sqlite_after A path e cs = (SQLite_init path, e))
   \<and> create_all_calls (snd (snd (sqlite_call A (r\<lparr>initialized := True\<rparr>, e) c))) = create_all_calls e
   \<and> (\<not> private_database path \<longrightarrow> reachable e \<longrightarrow>
        (\<exists>e1 e2. create_all path e = Inr e1 \<and> users_table e1 = Some (table_rows e)
           \<and> create_all path e1 = Inr e2 \<and> users_table e2 = users_table e1))"
proof (intro conjI impI)
  show f: "\<not> initialized (SQLite_init path)" by (simp add: SQLite_init_def)
  show "create_all_calls (snd (snd (sqlite_call A (r\<lparr>initialized := True\<rparr>, e) c))) = create_all_calls e"
    using sqlite_call_skips[where A = A and st = "(r\<lparr>initialized := True\<rparr>, e)" and c = c] by simp
next
  assume p: "\<not> private_database path" and re: "reachable e"
  let ?s0 = "(SQLite_init path, e)"
  let ?s1 = "snd (sqlite_call A ?s0 c)"
  have srv: "serves ?s0" using p re by (simp add: serves_def SQLite_init_def)
  have i: "snd (init_db ?s0) = ((SQLite_init path)\<lparr>initialized := True\<rparr>,
             \<lparr>reachable = True, users_table = Some (table_rows e),
              create_all_calls = Suc (create_all_calls e)\<rparr>)"
    using p re
    by (cases e; cases "users_table e")
       (simp_all add: init_db_def create_all_def SQLite_init_def table_rows_def)
  show a: "initialized (fst ?s1)"
    using sqlite_call_flag_count[where A = A and st = ?s0 and c = c] by (simp add: i)
  show b: "create_all_calls (snd ?s1) = Suc (create_all_calls e)"
    using sqlite_call_flag_count[where A = A and st = ?s0 and c = c] by (simp add: i)
  show "users_table (snd ?s1) \<noteq> None"
    using sqlite_call_flag_count[where A = A and st = ?s0 and c = c] by (simp add: i)
  have run: "sqlite_after A path e (c # cs) = snd (run (sqlite_call A) ?s1 cs)"
    by (simp add: sqlite_after_def split: prod.splits)
  show "initialized (fst (sqlite_after A path e (c # cs)))"
    using sqlite_run_skips[where A = A and cs = cs, OF a] by (simp add: run)
  show "create_all_calls (snd (sqlite_after A path e (c # cs))) = Suc (create_all_calls e)"
    using sqlite_run_skips[where A = A and cs = cs, OF a] b by (simp add: run)
next
  assume p: "\<not> private_database path" and u: "\<not> reachable e"
  have i: "init_db (SQLite_init path, e) = (Inl OperationalError, (SQLite_init path, e))"
    using p u by (simp add: init_db_unreachable SQLite_init_def)
  show "sqlite_call A (SQLite_init path, e) c = (Inl OperationalError, (SQLite_init path, e))"
    using sqlite_call_unserved[of "SQLite_init path" e A c] u i by simp
  show "sqlite_after A path e cs = (SQLite_init path, e)"
    using sqlite_run_unreachable[OF p u, of A cs] by (simp add: sqlite_after_def)
next
  assume p: "\<not> private_database path" and re: "reachable e"
  let ?e1 = "e\<lparr>users_table := Some (table_rows e), create_all_calls := Suc (create_all_calls e)\<rparr>"
  let ?e2 = "?e1\<lparr>create_all_calls := Suc (Suc (create_all_calls e))\<rparr>"
  have 1: "create_all path e = Inr ?e1"
    using p re by (cases "users_table e") (simp_all add: create_all_def table_rows_def)
  have 2: "create_all path ?e1 = Inr ?e2"
    using p re by (simp add: create_all_def)
  have "users_table ?e1 = Some (table_rows e)" and "users_table ?e2 = users_table ?e1" by simp_all
  with 1 2 show "\<exists>e1 e2. create_all path e = Inr e1 \<and> users_table e1 = Some (table_rows e)
           \<and> create_all path e1 = Inr e2 \<and> users_table e2 = users_table e1"
    by blast
qed

theorem sqlite_schema_created_once_witness:
  "\<not> private_database ''users.db''
   \<and> reachable \<lparr>reachable = True, users_table = None, create_all_calls = 0\<rparr>
   \<and> initialized (fst (sqlite_after sqlite_rowid ''users.db''
        \<lparr>reachable = True, users_table = None, create_all_calls = 0\<rparr>
        [GetUser 1, CreateUser ''alice'' ''alice@x.com'' 10, ListUsers]))
   \<and> create_all_calls (snd (sqlite_after sqlite_rowid ''users.db''
        \<lparr>reachable = True, users_table = None, create_all_calls = 0\<rparr>
        [GetUser 1, CreateUser ''alice'' ''alice@x.com'' 10, ListUsers])) = 1
   \<and> \<not> reachable \<lparr>reachable = False, users_table = None, create_all_calls = 0\<rparr>
   \<and> sqlite_after sqlite_rowid ''users.db''
        \<lparr>reachable = False, users_table = None, create_all_calls = 0\<rparr>
        [GetUser 1, CreateUser ''alice'' ''alice@x.com'' 10, ListUsers]
       = (SQLite_init ''users.db'', \<lparr>reachable = False, users_table = None, create_all_calls = 0\<rparr>)"
proof -
  let ?e = "\<lparr>reachable = True, users_table = None, create_all_calls = 0\<rparr>"
  let ?d = "\<lparr>reachable = False, users_table = None, create_all_calls = 0\<rparr>"
  have p: "\<not> private_database ''users.db''" by code_simp
  have re: "reachable ?e" and un: "\<not> reachable ?d" by simp_all
  have a: "initialized (fst (sqlite_after sqlite_rowid ''users.db'' ?e
             (GetUser 1 # [CreateUser ''alice'' ''alice@x.com'' 10, ListUsers])))
           \<and> create_all_calls (snd (sqlite_after sqlite_rowid ''users.db'' ?e
             (GetUser 1 # [CreateUser ''alice'' ''alice@x.com'' 10, ListUsers]))) = Suc (create_all_calls ?e)"
    using sqlite_schema_created_once[where path = "''users.db''" and e = ?e and A = sqlite_rowid
            and c = "GetUser 1" and cs = "[CreateUser ''alice'' ''alice@x.com'' 10, ListUsers]"]
      p re by blast
  have b: "sqlite_after sqlite_rowid ''users.db'' ?d
             [GetUser 1, CreateUser ''alice'' ''alice@x.com'' 10, ListUsers] = (SQLite_init ''users.db'', ?d)"
    using sqlite_schema_created_once[where path = "''users.db''" and e = ?d and A = sqlite_rowid
            and cs = "[GetUser 1, CreateUser ''alice'' ''alice@x.com'' 10, ListUsers]"]
      p un by blast
  from p re un a b show ?thesis by simp
qed

text \<open>
  C7, as the specification words it, fails: on a fresh instance whose database file
  cannot be opened the first call raises, creates no schema and does not set the flag.
\<close>

theorem first_call_leaves_flag_unset_counterexample:
  "fst (sqlite_call sqlite_rowid
          (SQLite_init ''users.db'', \<lparr>reachable = False, users_table = None, create_all_calls = 0\<rparr>)
          ListUsers) = Inl OperationalError
   \<and> \<not> initialized (fst (snd (sqlite_call sqlite_rowid
          (SQLite_init ''users.db'', \<lparr>reachable = False, users_table = None, create_all_calls = 0\<rparr>)
          ListUsers)))
   \<and> create_all_calls (snd (snd (sqlite_call sqlite_rowid
          (SQLite_init ''users.db'', \<lparr>reachable = False, users_table = None, create_all_calls = 0\<rparr>)
          ListUsers))) = 0"
  by code_simp

text \<open>
  C8. On the in-memory variant \<open>get_user\<close> and \<open>list_users\<close> return the instance as they
  found it, dict and counter alike, in every state; \<open>create_user\<close> always changes it (the
  counter goes up by one).
\<close>

theorem mem_reads_leave_state_unchanged:
  "snd (mem_get_user s k) = s \<and> snd (mem_list_users s) = s
   \<and> users (snd (mem_get_user s k)) = users s \<and> next_id (snd (mem_get_user s k)) = next_id s
   \<and> users (snd (mem_list_users s)) = users s \<and> next_id (snd (mem_list_users s)) = next_id s
   \<and> snd (mem_create_user s n m t) \<noteq> s
   \<and> next_id (snd (mem_create_user s n m t)) = next_id s + 1"
proof -
  have g: "snd (mem_get_user s k) = s" by (simp add: mem_get_user_def)
  have l: "snd (mem_list_users s) = s" by (simp add: mem_list_users_def)
  have c: "next_id (snd (mem_create_user s n m t)) = next_id s + 1"
    by (simp add: mem_create_user_def Let_def)
  then have "next_id (snd (mem_create_user s n m t)) \<noteq> next_id s" by simp
  then have "snd (mem_create_user s n m t) \<noteq> s" by auto
  with g l c show ?thesis by simp
qed

text \<open>
  C10. Called without a selector, the factory does what it does for the value of
  \<open>REPO_TYPE\<close> in the environment, and for \<open>memory\<close> when the variable is unset: it then
  builds the in-memory variant (and hands the database back as it found it).
\<close>

theorem factory_default_from_environment:
  "create_user_repository ul env None e
     = create_user_repository ul env (Some (getenv env ''REPO_TYPE'' ''memory'')) e
   \<and> (env ''REPO_TYPE'' = None \<longrightarrow>
        create_user_repository ul env None e = (Inr (InMemory InMemory_init), e))
   \<and> (env ''REPO_TYPE'' = Some v \<longrightarrow>
        create_user_repository ul env None e = create_user_repository ul env (Some v) e)"
proof -
  have "in_any_letter_case ''memory'' ''memory''" by code_simp
  then have "lower ul ''memory'' = ''memory''"
    by (rule lower_spelling[OF lower_letters_memory])
  then show ?thesis
    by (simp add: create_user_repository_def getenv_def)
qed

theorem factory_default_from_environment_witness:
  "map_of [] ''REPO_TYPE'' = (None :: string option)
   \<and> create_user_repository id (map_of []) None \<lparr>reachable = True, users_table = None, create_all_calls = 0\<rparr>
       = (Inr (InMemory InMemory_init), \<lparr>reachable = True, users_table = None, create_all_calls = 0\<rparr>)
   \<and> map_of [(''REPO_TYPE'', ''SQLite'')] ''REPO_TYPE'' = Some ''SQLite''
   \<and> create_user_repository id (map_of [(''REPO_TYPE'', ''SQLite'')]) None
        \<lparr>reachable = True, users_table = None, create_all_calls = 0\<rparr>
       = (Inr (SQLite (SQLite_init ''users.db'')), \<lparr>reachable = True, users_table = None, create_all_calls = 0\<rparr>)"
proof -
  let ?e = "\<lparr>reachable = True, users_table = None, create_all_calls = 0\<rparr>"
  have h1: "map_of [] ''REPO_TYPE'' = (None :: string option)" by simp
  have h2: "map_of [(''REPO_TYPE'', ''SQLite'')] ''REPO_TYPE'' = Some ''SQLite''" by simp
  have m: "create_user_repository id (map_of []) None ?e = (Inr (InMemory InMemory_init), ?e)"
    using factory_default_from_environment[where ul = id and env = "map_of []" and e = ?e] h1 by blast
  have "create_user_repository id (map_of [(''REPO_TYPE'', ''SQLite'')]) None ?e
          = create_user_repository id (map_of [(''REPO_TYPE'', ''SQLite'')]) (Some ''SQLite'') ?e"
    using factory_default_from_environment[where ul = id and env = "map_of [(''REPO_TYPE'', ''SQLite'')]"
            and v = "''SQLite''" and e = ?e] h2 by blast
  also have "\<dots> = (Inr (SQLite (SQLite_init ''users.db'')), ?e)" by code_simp
  finally show ?thesis using h1 h2 m by blast
qed


end
